theory Spec2Isabelle
  imports Main
begin

section \<open>WildcardMatch: matching a token sequence against a wildcard pattern\<close>

text \<open>
  The embedding follows \<^verbatim>\<open>src/python/wildcard_match/wildcard_match.py\<close>.
  Tokens and pattern pieces are Python strings, modelled as \<open>string\<close>: a \<open>char\<close> is a
  code point below 256. Python's unbounded non-negative integers are \<open>nat\<close> (the pattern grammar
  \<^verbatim>\<open>\d*\<close> admits no sign), and the one subtraction of the source is computed in \<open>int\<close>.
  \<^verbatim>\<open>None\<close> as a maximum is \<open>None :: nat option\<close>. Every \<^verbatim>\<open>raise\<close> and every failing
  dictionary lookup is a value \<open>Inl e\<close> of the result type.
\<close>

datatype error =
    ValueError          \<comment> \<open>line 19: maximum length less than minimum length\<close>
  | KeyError string     \<comment> \<open>a lookup in \<^verbatim>\<open>variant_rewrite_rules\<close> with a missing key\<close>
  | TypeError           \<comment> \<open>unpacking the \<^verbatim>\<open>None\<close> that \<^verbatim>\<open>_sum_variant_lengths()\<close> returns for no arguments\<close>

type_synonym variant_lengths = "nat \<times> nat option"

subsection \<open>The regular expression of the range form\<close>

text \<open>
  \<^verbatim>\<open>variant_pattern = r"\s*\{\s*(?P<min>\d*)\s*,\s*(?P<max>\d*)\s*\}\s*"\<close>, used through
  \<^verbatim>\<open>re.match\<close>: anchored at the start of the piece, not at its end. Whitespace, digits and
  the three punctuation characters are pairwise disjoint classes, so the greedy stars never
  backtrack and the expression is a deterministic left-to-right scan. The result is the
  pair of the groups \<^verbatim>\<open>min\<close> and \<^verbatim>\<open>max\<close>, or \<open>None\<close> when the piece does not match.
  Among the code points below 256, \<^verbatim>\<open>\s\<close> of a Python 3 string pattern matches 9 to 13,
  28 to 31, the space, 133 (next line) and 160 (no-break space), and \<^verbatim>\<open>\d\<close> matches the
  digits \<^verbatim>\<open>0\<close> to \<^verbatim>\<open>9\<close>.
\<close>

definition is_space :: "char \<Rightarrow> bool" where
  "is_space c =
     (let n = (of_char c :: nat)
      in (9 \<le> n \<and> n \<le> 13) \<or> (28 \<le> n \<and> n \<le> 32) \<or> n = 133 \<or> n = 160)"

definition is_digit :: "char \<Rightarrow> bool" where
  "is_digit c = (let n = (of_char c :: nat) in 48 \<le> n \<and> n \<le> 57)"

definition variant_expression_match :: "string \<Rightarrow> (string \<times> string) option" where
  "variant_expression_match piece =
     (case dropWhile is_space piece of
        [] \<Rightarrow> None
      | c1 # r1 \<Rightarrow>
          if c1 \<noteq> CHR ''{'' then None
          else
            let r2 = dropWhile is_space r1;
                min_text = takeWhile is_digit r2;
                r3 = dropWhile is_space (dropWhile is_digit r2)
            in (case r3 of
                  [] \<Rightarrow> None
                | c2 # r4 \<Rightarrow>
                    if c2 \<noteq> CHR '','' then None
                    else
                      let r5 = dropWhile is_space r4;
                          max_text = takeWhile is_digit r5;
                          r6 = dropWhile is_space (dropWhile is_digit r5)
                      in (case r6 of
                            [] \<Rightarrow> None
                          | c3 # r7 \<Rightarrow>
                              if c3 = CHR ''}'' then Some (min_text, max_text) else None)))"

text \<open>\<^verbatim>\<open>int(text)\<close> on a string of decimal digits.\<close>

definition int_of_digits :: "string \<Rightarrow> nat" where
  "int_of_digits text = foldl (\<lambda>acc c. 10 * acc + (of_char c - 48)) 0 text"

subsection \<open>\<^verbatim>\<open>_get_variant_lengths\<close> (lines 5-21)\<close>

definition get_variant_lengths :: "string \<times> string \<Rightarrow> error + variant_lengths" where
  "get_variant_lengths groups =
     (let minimum_variant_length =
            (if fst groups \<noteq> [] then int_of_digits (fst groups) else 0);
          maximum_variant_length =
            (if snd groups \<noteq> [] then Some (int_of_digits (snd groups)) else None)
      in case maximum_variant_length of
           None \<Rightarrow> Inr (minimum_variant_length, None)
         | Some mx \<Rightarrow>
             if mx < minimum_variant_length then Inl ValueError
             else Inr (minimum_variant_length, Some mx))"

subsection \<open>\<^verbatim>\<open>_sum_variant_lengths\<close> (lines 23-44)\<close>

fun sum_variant_lengths_loop :: "variant_lengths \<Rightarrow> variant_lengths list \<Rightarrow> variant_lengths" where
  "sum_variant_lengths_loop (minimum, maximum) [] = (minimum, maximum)"
| "sum_variant_lengths_loop (minimum, maximum) ((next_min, next_max) # args) =
     sum_variant_lengths_loop
       (minimum + next_min,
        (case next_max of
           None \<Rightarrow> maximum
         | Some nmx \<Rightarrow>
             (case maximum of
                None \<Rightarrow> Some nmx
              | Some mx \<Rightarrow> Some (mx + nmx))))
       args"

definition sum_variant_lengths :: "variant_lengths list \<Rightarrow> variant_lengths option" where
  "sum_variant_lengths args =
     (case args of
        [] \<Rightarrow> None
      | first # rest \<Rightarrow> Some (sum_variant_lengths_loop first rest))"

subsection \<open>\<^verbatim>\<open>match\<close> (lines 46-132)\<close>

text \<open>\<^verbatim>\<open>variant_rewrite_rules = { "*": (0, None), "?": (0,1), "+": (1,None) }\<close>\<close>

definition variant_rewrite_rules :: "string \<rightharpoonup> variant_lengths" where
  "variant_rewrite_rules =
     [''*'' \<mapsto> (0, None), ''?'' \<mapsto> (0, Some 1), ''+'' \<mapsto> (1, None)]"

text \<open>
  The test \<^verbatim>\<open>piece in variant_rewrite_rules or mo is not None\<close> of lines 73 and 85, and the
  resolution of lines 74-77 and 86-89: \<^verbatim>\<open>variant_rewrite_rules[ key ]\<close> when \<^verbatim>\<open>mo is None\<close>
  (a \<^verbatim>\<open>KeyError\<close> when the key is missing), \<^verbatim>\<open>_get_variant_lengths( mo )\<close> otherwise.
\<close>

definition is_variant :: "string \<Rightarrow> bool" where
  "is_variant piece =
     (variant_rewrite_rules piece \<noteq> None \<or> variant_expression_match piece \<noteq> None)"

definition resolve :: "string \<Rightarrow> (string \<times> string) option \<Rightarrow> error + variant_lengths" where
  "resolve key mo =
     (case mo of
        None \<Rightarrow>
          (case variant_rewrite_rules key of
             None \<Rightarrow> Inl (KeyError key)
           | Some lengths \<Rightarrow> Inr lengths)
      | Some groups \<Rightarrow> get_variant_lengths groups)"

text \<open>
  Lines 80-97, the loop that collapses the following variant symbols into one variant
  sequence. \<open>piece\<close> is the piece the main loop read at line 70; \<^verbatim>\<open>next_piece\<close> is
  \<open>pattern ! piece_index\<close> whenever \<open>piece_index < length pattern\<close>, and line 87 looks up
  \<^verbatim>\<open>variant_rewrite_rules[ piece ]\<close>, not \<^verbatim>\<open>next_piece\<close>. The result is the new
  \<open>piece_index\<close> and the summed lengths.
\<close>

function collapse ::
  "string list \<Rightarrow> string \<Rightarrow> nat \<Rightarrow> nat \<Rightarrow> nat option \<Rightarrow> error + (nat \<times> nat \<times> nat option)" where
  "collapse pattern piece piece_index minimum_variant_length maximum_variant_length =
     (if piece_index < length pattern \<and> is_variant (pattern ! piece_index) then
        (case resolve piece (variant_expression_match (pattern ! piece_index)) of
           Inl e \<Rightarrow> Inl e
         | Inr new_lengths \<Rightarrow>
             (case sum_variant_lengths
                     [(minimum_variant_length, maximum_variant_length), new_lengths] of
                None \<Rightarrow> Inl TypeError
              | Some (mn, mx) \<Rightarrow> collapse pattern piece (piece_index + 1) mn mx))
      else Inr (piece_index, minimum_variant_length, maximum_variant_length))"
  by pat_completeness auto
termination
  by (relation "measure (\<lambda>(pattern, piece, piece_index, mn, mx). length pattern - piece_index)")
     auto

record state =
  target_index :: nat
  piece_index :: nat
  match_possible :: bool

text \<open>Lines 99-107: the variant sequence is the last content of the pattern.\<close>

definition last_piece :: "string list \<Rightarrow> state \<Rightarrow> nat \<Rightarrow> nat \<Rightarrow> nat option \<Rightarrow> state" where
  "last_piece target s pi minimum_variant_length maximum_variant_length =
     (let remaining_target_amount = length (drop (target_index s) target)
      in if minimum_variant_length \<le> remaining_target_amount
            \<and> (case maximum_variant_length of
                 None \<Rightarrow> True
               | Some mx \<Rightarrow> mx \<le> remaining_target_amount)
         then (case maximum_variant_length of
                 None \<Rightarrow> s\<lparr>target_index := length target, piece_index := pi\<rparr>
               | Some mx \<Rightarrow> s\<lparr>target_index := target_index s + mx, piece_index := pi\<rparr>)
         else s\<lparr>piece_index := pi, match_possible := False\<rparr>)"

text \<open>Lines 114-117: the scan for the first token equal to the following piece.\<close>

function scan :: "string list \<Rightarrow> string \<Rightarrow> bool \<Rightarrow> nat \<Rightarrow> bool \<times> nat" where
  "scan target next_piece next_piece_matched ti =
     (if \<not> next_piece_matched \<and> ti < length target
      then scan target next_piece (target ! ti = next_piece) (ti + 1)
      else (next_piece_matched, ti))"
  by pat_completeness auto
termination
  by (relation "measure (\<lambda>(target, next_piece, matched, ti). length target - ti)") auto

text \<open>
  Lines 108-123: the variant sequence is followed by an invariant \<open>next_piece\<close>. The
  summed maximum can be below the summed minimum, so line 123 is computed in \<open>int\<close>.
\<close>

definition before_invariant ::
  "string list \<Rightarrow> string \<Rightarrow> state \<Rightarrow> nat \<Rightarrow> nat \<Rightarrow> nat option \<Rightarrow> state" where
  "before_invariant target next_piece s pi minimum_variant_length maximum_variant_length =
     (let ti = target_index s + minimum_variant_length
      in case maximum_variant_length of
           None \<Rightarrow>
             (case scan target next_piece False ti of
                (next_piece_matched, ti') \<Rightarrow>
                  s\<lparr>target_index := ti',
                    piece_index := (if next_piece_matched then pi + 1 else pi),
                    match_possible := next_piece_matched\<rparr>)
         | Some mx \<Rightarrow>
             s\<lparr>target_index := nat (int ti + (int mx - int minimum_variant_length)),
               piece_index := pi\<rparr>)"

text \<open>
  Lines 74-97 for a variant piece at index \<open>i\<close>: its own lengths, then the collapse of
  the variant symbols that follow it.
\<close>

definition variant_sequence :: "string list \<Rightarrow> nat \<Rightarrow> error + (nat \<times> nat \<times> nat option)" where
  "variant_sequence pattern i =
     (let piece = pattern ! i
      in case resolve piece (variant_expression_match piece) of
           Inl e \<Rightarrow> Inl e
         | Inr (mn, mx) \<Rightarrow> collapse pattern piece (i + 1) mn mx)"

text \<open>Lines 70-128: one iteration of the main loop.\<close>

definition loop_body :: "string list \<Rightarrow> string list \<Rightarrow> state \<Rightarrow> error + state" where
  "loop_body target pattern s =
     (let piece = pattern ! piece_index s;
          mo = variant_expression_match piece
      in if variant_rewrite_rules piece \<noteq> None \<or> mo \<noteq> None then
           (case variant_sequence pattern (piece_index s) of
              Inl e \<Rightarrow> Inl e
            | Inr (pi, mn, mx) \<Rightarrow>
                if pi = length pattern
                then Inr (last_piece target s pi mn mx)
                else Inr (before_invariant target (pattern ! pi) s pi mn mx))
         else if target ! target_index s = piece then
           Inr (s\<lparr>target_index := target_index s + 1, piece_index := piece_index s + 1\<rparr>)
         else Inr (s\<lparr>match_possible := False\<rparr>))"

definition loop_cond :: "string list \<Rightarrow> string list \<Rightarrow> state \<Rightarrow> bool" where
  "loop_cond target pattern s =
     (match_possible s \<and> piece_index s < length pattern \<and> target_index s < length target)"

text \<open>
  Line 69: the main loop. The last argument counts the iterations that were started; it
  is not a variable of the source and no branch reads it.
\<close>

declare collapse.simps [simp del]
declare scan.simps [simp del]

lemma collapse_piece_index:
  "collapse pattern piece i mn mx = Inr (pi, mn', mx') \<Longrightarrow> i \<le> pi \<and> pi \<le> max i (length pattern)"
proof (induction pattern piece i mn mx rule: collapse.induct)
  case (1 pattern piece i mn mx)
  show ?case
  proof (cases "i < length pattern \<and> is_variant (pattern ! i)")
    case False
    with "1.prems" show ?thesis
      by (subst (asm) collapse.simps) auto
  next
    case True
    from True "1.prems" obtain new_lengths a b where
      r: "resolve piece (variant_expression_match (pattern ! i)) = Inr new_lengths" and
      s: "sum_variant_lengths [(mn, mx), new_lengths] = Some (a, b)" and
      c: "collapse pattern piece (i + 1) a b = Inr (pi, mn', mx')"
      by (subst (asm) collapse.simps) (auto split: sum.splits option.splits)
    from "1.IH" [OF True r s refl c] True show ?thesis
      by auto
  qed
qed

lemma loop_body_progress:
  assumes "piece_index s < length pattern" and "loop_body target pattern s = Inr s'"
  shows "(match_possible s' \<longrightarrow> piece_index s < piece_index s') \<and> piece_index s' \<le> length pattern"
  using assms
  by (auto simp: loop_body_def variant_sequence_def Let_def last_piece_def before_invariant_def
           split: if_splits sum.splits option.splits prod.splits
           dest!: collapse_piece_index)

function main_loop ::
  "string list \<Rightarrow> string list \<Rightarrow> state \<Rightarrow> nat \<Rightarrow> (error + state) \<times> nat" where
  "main_loop target pattern s iterations =
     (if loop_cond target pattern s then
        (case loop_body target pattern s of
           Inl e \<Rightarrow> (Inl e, iterations + 1)
         | Inr s' \<Rightarrow> main_loop target pattern s' (iterations + 1))
      else (Inr s, iterations))"
  by pat_completeness auto
termination
proof (relation "measure (\<lambda>(target, pattern, s, iterations).
                   if match_possible s then Suc (length pattern - piece_index s) else 0)")
  show "wf (measure (\<lambda>(target, pattern, s, iterations).
                   if match_possible s then Suc (length pattern - piece_index s) else 0))"
    by simp
next
  fix target pattern :: "string list" and s s' :: state and iterations :: nat
  assume c: "loop_cond target pattern s" and b: "loop_body target pattern s = Inr s'"
  from c have lt: "piece_index s < length pattern" and p: "match_possible s"
    by (simp_all add: loop_cond_def)
  from loop_body_progress [OF lt b] lt p
  show "((target, pattern, s', iterations + 1), (target, pattern, s, iterations))
        \<in> measure (\<lambda>(target, pattern, s, iterations).
                   if match_possible s then Suc (length pattern - piece_index s) else 0)"
    by auto
qed

declare main_loop.simps [simp del]

text \<open>Lines 65-67 and 130-132: the initial cursors and the result.\<close>

definition initial_state :: state where
  "initial_state = \<lparr>target_index = 0, piece_index = 0, match_possible = True\<rparr>"

definition match :: "string list \<Rightarrow> string list \<Rightarrow> error + bool" where
  "match target pattern =
     (case fst (main_loop target pattern initial_state 0) of
        Inl e \<Rightarrow> Inl e
      | Inr s \<Rightarrow> Inr (length target \<le> target_index s \<and> length pattern \<le> piece_index s))"

subsection \<open>Decimal numerals\<close>

text \<open>
  The properties of the range form are stated for the pieces \<^verbatim>\<open>"{m,n}"\<close>, \<^verbatim>\<open>"{m,}"\<close> with
  the bounds written in decimal: \<open>str_nat\<close> is Python's \<^verbatim>\<open>str\<close> on a non-negative integer.
\<close>

function str_nat :: "nat \<Rightarrow> string" where
  "str_nat n =
     (if n < 10 then [char_of (48 + n)]
      else str_nat (n div 10) @ [char_of (48 + n mod 10)])"
  by pat_completeness auto
termination
  by (relation "measure id") auto

declare str_nat.simps [simp del]


subsection \<open>Malformed range pieces\<close>

text \<open>
  A range piece whose maximum is present and strictly less than its minimum: the pieces on
  which line 18 raises.
\<close>

definition invalid_range :: "string \<Rightarrow> bool" where
  "invalid_range piece =
     (case variant_expression_match piece of
        None \<Rightarrow> False
      | Some (min_text, max_text) \<Rightarrow>
          max_text \<noteq> []
          \<and> int_of_digits max_text < (if min_text \<noteq> [] then int_of_digits min_text else 0))"

subsection \<open>The states of the main loop\<close>

text \<open>
  \<open>state_after target pattern n = Some s\<close>: the main loop completes \<open>n\<close> iterations on
  \<open>target\<close> and \<open>pattern\<close> without raising, and \<open>s\<close> holds the cursors after them.
\<close>

fun state_after :: "string list \<Rightarrow> string list \<Rightarrow> nat \<Rightarrow> state option" where
  "state_after target pattern 0 = Some initial_state"
| "state_after target pattern (Suc n) =
     (case state_after target pattern n of
        None \<Rightarrow> None
      | Some s \<Rightarrow>
          if loop_cond target pattern s then
            (case loop_body target pattern s of
               Inl e \<Rightarrow> None
             | Inr s' \<Rightarrow> Some s')
          else None)"

section \<open>Basic facts\<close>

subsection \<open>Numerals and the range expression\<close>

lemma is_digit_char_of: "d < 10 \<Longrightarrow> is_digit (char_of (48 + d :: nat))"
  by (simp add: is_digit_def)

lemma of_char_digit: "d < 10 \<Longrightarrow> (of_char (char_of (48 + d :: nat)) :: nat) = 48 + d"
  by simp

lemma str_nat_digits: "c \<in> set (str_nat n) \<Longrightarrow> is_digit c"
proof (induction n rule: str_nat.induct)
  case (1 n)
  then show ?case
    by (subst (asm) (2) str_nat.simps) (auto simp: is_digit_char_of split: if_splits)
qed

lemma str_nat_nonempty: "str_nat n \<noteq> []"
  by (subst str_nat.simps) simp

lemma int_of_digits_snoc: "int_of_digits (ds @ [c]) = 10 * int_of_digits ds + (of_char c - 48)"
  by (simp add: int_of_digits_def)

lemma int_of_digits_str_nat: "int_of_digits (str_nat n) = n"
proof (induction n rule: str_nat.induct)
  case (1 n)
  show ?case
  proof (cases "n < 10")
    case True
    then show ?thesis
      by (subst str_nat.simps) (simp add: int_of_digits_def)
  next
    case False
    with 1 show ?thesis
      by (subst str_nat.simps) (simp add: int_of_digits_snoc)
  qed
qed

lemma digit_not_space: "is_digit c \<Longrightarrow> \<not> is_space c"
  by (auto simp: is_digit_def is_space_def Let_def)

lemma dropWhile_space_digits:
  "\<forall>c\<in>set ds. is_digit c \<Longrightarrow> \<not> is_space x \<Longrightarrow> dropWhile is_space (ds @ x # r) = ds @ x # r"
  by (cases ds) (auto simp: digit_not_space)

lemma takeWhile_digits:
  "\<forall>c\<in>set ds. is_digit c \<Longrightarrow> \<not> is_digit x \<Longrightarrow> takeWhile is_digit (ds @ x # r) = ds"
  by (simp add: takeWhile_append2)

lemma dropWhile_digits:
  "\<forall>c\<in>set ds. is_digit c \<Longrightarrow> \<not> is_digit x \<Longrightarrow> dropWhile is_digit (ds @ x # r) = x # r"
  by (simp add: dropWhile_append2)

lemma variant_expression_match_range:
  assumes "\<forall>c\<in>set a. is_digit c" and "\<forall>c\<in>set b. is_digit c"
  shows "variant_expression_match (''{'' @ a @ '','' @ b @ ''}'') = Some (a, b)"
proof -
  have 1: "dropWhile is_space (CHR ''{'' # a @ CHR '','' # b @ ''}'') = CHR ''{'' # a @ CHR '','' # b @ ''}''"
    by (simp add: is_space_def)
  have 2: "dropWhile is_space (a @ CHR '','' # b @ ''}'') = a @ CHR '','' # b @ ''}''"
    using assms(1) by (intro dropWhile_space_digits) (simp_all add: is_space_def)
  have 3: "takeWhile is_digit (a @ CHR '','' # b @ ''}'') = a"
    using assms(1) by (intro takeWhile_digits) (simp_all add: is_digit_def)
  have 4: "dropWhile is_digit (a @ CHR '','' # b @ ''}'') = CHR '','' # b @ ''}''"
    using assms(1) by (intro dropWhile_digits) (simp_all add: is_digit_def)
  have 5: "dropWhile is_space (CHR '','' # b @ ''}'') = CHR '','' # b @ ''}''"
    by (simp add: is_space_def)
  have 6: "dropWhile is_space (b @ ''}'') = b @ ''}''"
    using assms(2) dropWhile_space_digits [of b "CHR ''}''" "[]"] by (simp add: is_space_def)
  have 7: "takeWhile is_digit (b @ ''}'') = b"
    using assms(2) takeWhile_digits [of b "CHR ''}''" "[]"] by (simp add: is_digit_def)
  have 8: "dropWhile is_digit (b @ ''}'') = ''}''"
    using assms(2) dropWhile_digits [of b "CHR ''}''" "[]"] by (simp add: is_digit_def)
  have 9: "dropWhile is_space ''}'' = ''}''"
    by (simp add: is_space_def)
  show ?thesis
    unfolding variant_expression_match_def
    by (simp add: 1 2 3 4 5 6 7 8 9 Let_def del: dropWhile.simps takeWhile.simps)
qed

lemma range_not_in_rules: "variant_rewrite_rules (CHR ''{'' # r) = None"
  by (simp add: variant_rewrite_rules_def)

lemma collapse_at_end: "length pattern \<le> i \<Longrightarrow> collapse pattern piece i mn mx = Inr (i, mn, mx)"
  by (subst collapse.simps) simp

lemma main_loop_stop:
  "\<not> loop_cond target pattern s \<Longrightarrow> main_loop target pattern s n = (Inr s, n)"
  by (subst main_loop.simps) simp

lemma main_loop_step:
  "loop_cond target pattern s \<Longrightarrow> loop_body target pattern s = Inr s' \<Longrightarrow>
   main_loop target pattern s n = main_loop target pattern s' (n + 1)"
  by (subst main_loop.simps) simp

lemma main_loop_raise:
  "loop_cond target pattern s \<Longrightarrow> loop_body target pattern s = Inl e \<Longrightarrow>
   main_loop target pattern s n = (Inl e, n + 1)"
  by (subst main_loop.simps) simp

lemma match_single_variant:
  assumes "target \<noteq> []" and "is_variant p"
    and "resolve p (variant_expression_match p) = Inr (mn, mx)"
  shows "match target [p] =
           Inr (mn \<le> length target \<and> (case mx of None \<Rightarrow> True | Some m \<Rightarrow> m = length target))"
proof -
  have c: "loop_cond target [p] initial_state"
    using assms(1) by (simp add: loop_cond_def initial_state_def)
  have b: "loop_body target [p] initial_state = Inr (last_piece target initial_state 1 mn mx)"
    using assms(2,3)
    by (simp add: loop_body_def variant_sequence_def initial_state_def is_variant_def
                  collapse_at_end)
  have n: "\<not> loop_cond target [p] (last_piece target initial_state 1 mn mx)"
    by (simp add: loop_cond_def last_piece_def Let_def split: option.splits)
  have "main_loop target [p] initial_state 0 = (Inr (last_piece target initial_state 1 mn mx), 1)"
    unfolding main_loop_step [OF c b] main_loop_stop [OF n] by simp
  then show ?thesis
    using assms(1)
    by (auto simp: match_def last_piece_def initial_state_def Let_def split: option.splits)
qed


lemma is_variant_range:
  "\<forall>c\<in>set a. is_digit c \<Longrightarrow> \<forall>c\<in>set b. is_digit c \<Longrightarrow>
   is_variant (''{'' @ a @ '','' @ b @ ''}'')"
  using variant_expression_match_range [of a b] by (simp add: is_variant_def)

lemma resolve_range:
  "\<forall>c\<in>set a. is_digit c \<Longrightarrow> \<forall>c\<in>set b. is_digit c \<Longrightarrow>
   resolve (''{'' @ a @ '','' @ b @ ''}'') (variant_expression_match (''{'' @ a @ '','' @ b @ ''}''))
     = get_variant_lengths (a, b)"
  using variant_expression_match_range [of a b] by (simp add: resolve_def)

lemma get_variant_lengths_open:
  "get_variant_lengths (str_nat m, []) = Inr (m, None)"
  by (simp add: get_variant_lengths_def str_nat_nonempty int_of_digits_str_nat)

lemma get_variant_lengths_closed:
  "m \<le> n \<Longrightarrow> get_variant_lengths (str_nat m, str_nat n) = Inr (m, Some n)"
  by (simp add: get_variant_lengths_def str_nat_nonempty int_of_digits_str_nat)

lemma match_star_nonempty: "target \<noteq> [] \<Longrightarrow> match target [''*''] = Inr True"
proof -
  assume t: "target \<noteq> []"
  have v: "is_variant ''*''"
    by (simp add: is_variant_def variant_rewrite_rules_def)
  have r: "resolve ''*'' (variant_expression_match ''*'') = Inr (0, None)"
    by (simp add: resolve_def variant_expression_match_def variant_rewrite_rules_def is_space_def)
  show ?thesis
    using match_single_variant [OF t v r] by simp
qed

lemma match_open_range_nonempty:
  assumes "target \<noteq> []"
  shows "match target [''{'' @ str_nat m @ '',}''] = Inr (m \<le> length target)"
proof -
  have d: "\<forall>c\<in>set (str_nat m). is_digit c"
    by (simp add: str_nat_digits)
  have e: "\<forall>c\<in>set ([]::string). is_digit c"
    by simp
  have v: "is_variant (''{'' @ str_nat m @ '','' @ [] @ ''}'')"
    by (rule is_variant_range [OF d e])
  have r: "resolve (''{'' @ str_nat m @ '','' @ [] @ ''}'')
             (variant_expression_match (''{'' @ str_nat m @ '','' @ [] @ ''}'')) = Inr (m, None)"
    by (simp only: resolve_range [OF d e] get_variant_lengths_open)
  show ?thesis
    using match_single_variant [OF assms v r] by simp
qed

lemma match_exact_range_nonempty:
  assumes "target \<noteq> []"
  shows "match target [''{'' @ str_nat m @ '','' @ str_nat m @ ''}''] = Inr (length target = m)"
proof -
  have d: "\<forall>c\<in>set (str_nat m). is_digit c"
    by (simp add: str_nat_digits)
  have v: "is_variant (''{'' @ str_nat m @ '','' @ str_nat m @ ''}'')"
    by (rule is_variant_range [OF d d])
  have r: "resolve (''{'' @ str_nat m @ '','' @ str_nat m @ ''}'')
             (variant_expression_match (''{'' @ str_nat m @ '','' @ str_nat m @ ''}''))
           = Inr (m, Some m)"
    by (simp only: resolve_range [OF d d] get_variant_lengths_closed [OF order_refl])
  show ?thesis
    using match_single_variant [OF assms v r] by auto
qed

subsection \<open>Literal pieces and malformed ranges\<close>

lemma invalid_range_resolve:
  "invalid_range p \<Longrightarrow> resolve p (variant_expression_match p) = Inl ValueError"
  by (auto simp: invalid_range_def resolve_def get_variant_lengths_def split: option.splits)

lemma invalid_range_variant: "invalid_range p \<Longrightarrow> variant_expression_match p \<noteq> None"
  by (auto simp: invalid_range_def split: option.splits)

lemma loop_body_invalid_range:
  "invalid_range (pattern ! piece_index s) \<Longrightarrow> loop_body target pattern s = Inl ValueError"
  using invalid_range_variant [of "pattern ! piece_index s"]
  by (auto simp: loop_body_def variant_sequence_def invalid_range_resolve Let_def)

lemma loop_body_literal:
  assumes "\<not> is_variant (pattern ! piece_index s)"
  shows "loop_body target pattern s =
           Inr (if target ! target_index s = pattern ! piece_index s
                then s\<lparr>target_index := target_index s + 1, piece_index := piece_index s + 1\<rparr>
                else s\<lparr>match_possible := False\<rparr>)"
  using assms by (simp add: loop_body_def is_variant_def)

lemma main_loop_literal_prefix:
  assumes "invalid_range r" and "ts \<noteq> []"
  shows "\<forall>p\<in>set lits. \<not> is_variant p \<Longrightarrow>
         main_loop (pre @ lits @ ts) (pre @ lits @ r # rest)
           \<lparr>target_index = length pre, piece_index = length pre, match_possible = True\<rparr> n
         = (Inl ValueError, n + length lits + 1)"
proof (induction lits arbitrary: pre n)
  case Nil
  let ?s = "\<lparr>target_index = length pre, piece_index = length pre, match_possible = True\<rparr>"
  have c: "loop_cond (pre @ ts) (pre @ r # rest) ?s"
    using assms(2) by (simp add: loop_cond_def)
  have b: "loop_body (pre @ ts) (pre @ r # rest) ?s = Inl ValueError"
    by (rule loop_body_invalid_range) (simp add: assms(1))
  show ?case
    using main_loop_raise [OF c b] by simp
next
  case (Cons l ls)
  let ?s = "\<lparr>target_index = length pre, piece_index = length pre, match_possible = True\<rparr>"
  let ?s' = "\<lparr>target_index = length (pre @ [l]), piece_index = length (pre @ [l]),
              match_possible = True\<rparr>"
  let ?T = "pre @ (l # ls) @ ts" and ?P = "pre @ (l # ls) @ r # rest"
  have c: "loop_cond ?T ?P ?s"
    by (simp add: loop_cond_def)
  have l: "\<not> is_variant (?P ! piece_index ?s)"
    using Cons.prems by simp
  have b: "loop_body ?T ?P ?s = Inr ?s'"
    unfolding loop_body_literal [OF l] by simp
  have "main_loop ((pre @ [l]) @ ls @ ts) ((pre @ [l]) @ ls @ r # rest) ?s' (n + 1)
          = (Inl ValueError, (n + 1) + length ls + 1)"
    using Cons.prems by (intro Cons.IH) simp
  then show ?case
    unfolding main_loop_step [OF c b] by simp
qed

subsection \<open>What the summation of a variant sequence computes\<close>

text \<open>
  Lines 35-40: the minimums are added. A maximum of \<^verbatim>\<open>None\<close> contributes nothing: the
  result is \<^verbatim>\<open>None\<close> only when every maximum is \<^verbatim>\<open>None\<close>, and otherwise the sum of the
  maximums that are present.
\<close>

lemma sum_variant_lengths_loop_eq:
  "sum_variant_lengths_loop (mn, mx) args =
     (mn + sum_list (map fst args),
      if mx = None \<and> (\<forall>a\<in>set args. snd a = None) then None
      else Some (sum_list (map (\<lambda>a. case snd a of None \<Rightarrow> 0 | Some m \<Rightarrow> m) ((mn, mx) # args))))"
  by (induction args arbitrary: mn mx) (fastforce split: option.splits)+

lemma sum_variant_lengths_finite_then_unbounded:
  "sum_variant_lengths [(0, Some 2), (1, None)] = Some (1, Some 2)"
  by code_simp

text \<open>Line 87 resolves a following predefined symbol as the first piece of the sequence.\<close>

lemma variant_sequence_symbol_reads_first_piece:
  "variant_sequence [''?'', ''*''] 0 = Inr (2, 0, Some 2)"
  by code_simp

subsection \<open>The scan, the end of a variant sequence, the iteration count\<close>

lemma scan_matched: "scan target lit True ti = (True, ti)"
  by (subst scan.simps) simp

lemma scan_eq:
  "scan target lit False ti =
     (if lit \<in> set (drop ti target)
      then (True, ti + length (takeWhile (\<lambda>t. t \<noteq> lit) (drop ti target)) + 1)
      else (False, max ti (length target)))"
proof (induction "length target - ti" arbitrary: ti)
  case 0
  then show ?case
    by (subst scan.simps) (simp add: max_def)
next
  case (Suc k)
  then have lt: "ti < length target" and k: "k = length target - (ti + 1)"
    by simp_all
  have d: "drop ti target = target ! ti # drop (ti + 1) target"
    using lt by (simp add: Cons_nth_drop_Suc)
  show ?case
  proof (cases "target ! ti = lit")
    case True
    then show ?thesis
      using lt by (subst scan.simps) (simp add: d scan_matched)
  next
    case False
    have "scan target lit False ti = scan target lit False (ti + 1)"
      using lt False by (subst scan.simps) simp
    also note Suc.hyps(1) [OF k]
    finally show ?thesis
      using False lt by (auto simp: d max_def)
  qed
qed

lemma collapse_stops_at_invariant:
  "collapse pattern piece i mn mx = Inr (pi, mn', mx') \<Longrightarrow> pi < length pattern \<Longrightarrow>
   \<not> is_variant (pattern ! pi)"
proof (induction pattern piece i mn mx rule: collapse.induct)
  case (1 pattern piece i mn mx)
  show ?case
  proof (cases "i < length pattern \<and> is_variant (pattern ! i)")
    case False
    with "1.prems" show ?thesis
      by (subst (asm) collapse.simps) auto
  next
    case True
    from True "1.prems"(1) obtain new_lengths a b where
      r: "resolve piece (variant_expression_match (pattern ! i)) = Inr new_lengths" and
      s: "sum_variant_lengths [(mn, mx), new_lengths] = Some (a, b)" and
      c: "collapse pattern piece (i + 1) a b = Inr (pi, mn', mx')"
      by (subst (asm) collapse.simps) (auto split: sum.splits option.splits)
    from "1.IH" [OF True r s refl c "1.prems"(2)] show ?thesis .
  qed
qed

lemma variant_sequence_piece_index:
  assumes "variant_sequence pattern i = Inr (pi, mn, mx)" and "i < length pattern"
  shows "i < pi \<and> pi \<le> length pattern \<and> (pi < length pattern \<longrightarrow> \<not> is_variant (pattern ! pi))"
  using assms
  by (auto simp: variant_sequence_def Let_def split: sum.splits
           dest: collapse_piece_index collapse_stops_at_invariant)

lemma main_loop_iterations:
  "snd (main_loop target pattern s n) \<le> n + (length pattern - piece_index s)"
proof (induction target pattern s n rule: main_loop.induct)
  case (1 target pattern s n)
  show ?case
  proof (cases "loop_cond target pattern s")
    case False
    then show ?thesis
      by (simp add: main_loop_stop)
  next
    case True
    then have lt: "piece_index s < length pattern"
      by (simp add: loop_cond_def)
    show ?thesis
    proof (cases "loop_body target pattern s")
      case (Inl e)
      with True lt show ?thesis
        by (simp add: main_loop_raise)
    next
      case (Inr s')
      note step = main_loop_step [OF True Inr]
      show ?thesis
      proof (cases "match_possible s'")
        case False
        then have "\<not> loop_cond target pattern s'"
          by (simp add: loop_cond_def)
        with lt show ?thesis
          by (simp add: step main_loop_stop)
      next
        case True
        with loop_body_progress [OF lt Inr] have "piece_index s < piece_index s'"
          by simp
        with "1.IH" [OF \<open>loop_cond target pattern s\<close> Inr] lt show ?thesis
          by (simp add: step)
      qed
    qed
  qed
qed

lemma loop_body_advances:
  assumes "loop_cond target pattern s" and "loop_body target pattern s = Inr s'"
  shows "target_index s < target_index s' \<or> piece_index s < piece_index s' \<or> \<not> match_possible s'"
  using loop_body_progress [OF _ assms(2)] assms(1) by (auto simp: loop_cond_def)

subsection \<open>The test cases of the repository\<close>

text \<open>
  The cases of \<^verbatim>\<open>test/__main__.py\<close>, with the dotted strings split into their segments:
  the model agrees with every expected result.
\<close>

lemma test_two_sequential_positive:
  "match [''Character'', ''Action''] [''?'', ''?''] = Inr True"
  by code_simp

lemma test_three_sequential_negative:
  "match [''Character'', ''Action''] [''?'', ''?'', ''?''] = Inr False"
  by code_simp

lemma test_with_following_invariant_positive:
  "match [''Character'', ''Action''] [''?'', ''Action''] = Inr True"
  by code_simp

lemma test_with_following_invariant_negative:
  "match [''Character'', ''Scope'', ''Action''] [''?'', ''Action''] = Inr False"
  by code_simp

lemma test_single_item_positive:
  "match [''Character''] [''?''] = Inr True"
  by code_simp

lemma test_single_item_negative:
  "match [''Character'', ''Action''] [''?''] = Inr False"
  by code_simp

lemma test_entire_expression_positive:
  "match [''Character'', ''Action''] [''*''] = Inr True"
  by code_simp

lemma test_with_following_one_invariant_positive:
  "match [''Character'', ''Action''] [''*'', ''Action''] = Inr True"
  by code_simp

lemma test_with_following_two_invariants_positive:
  "match [''Character'', ''Scope'', ''Action''] [''*'', ''Action''] = Inr True"
  by code_simp

lemma test_one_item_positive:
  "match [''Character''] [''+''] = Inr True"
  by code_simp

lemma test_two_items_positive:
  "match [''Character'', ''Action''] [''+''] = Inr True"
  by code_simp

lemma test_range_two_items_positive:
  "match [''Character'', ''Action''] [''{2,2}''] = Inr True"
  by code_simp

lemma test_zero_to_two_items_negative:
  "match [''Character'', ''Scope'', ''Action''] [''{0,2}''] = Inr False"
  by code_simp

lemma test_at_least_two_items_positive:
  "match [''Character'', ''Action''] [''{2,}''] = Inr True"
  by code_simp

lemma test_at_least_three_items_negative:
  "match [''Character'', ''Action''] [''{3,}''] = Inr False"
  by code_simp

subsection \<open>The exceptions that can be raised\<close>

text \<open>
  \<open>match\<close> raises \<^verbatim>\<open>ValueError\<close> only on a pattern that holds a malformed range, and
  otherwise only the \<^verbatim>\<open>KeyError\<close> of line 87, whose key is a range piece of the pattern.
\<close>

lemma get_variant_lengths_error:
  "variant_expression_match p = Some g \<Longrightarrow> get_variant_lengths g = Inl e \<Longrightarrow>
   e = ValueError \<and> invalid_range p"
  by (cases g) (auto simp: get_variant_lengths_def invalid_range_def Let_def split: if_splits)

lemma collapse_error:
  "collapse pattern piece i mn mx = Inl e \<Longrightarrow>
   (e = KeyError piece \<and> variant_rewrite_rules piece = None)
   \<or> (e = ValueError \<and> (\<exists>p\<in>set pattern. invalid_range p))"
proof (induction pattern piece i mn mx rule: collapse.induct)
  case (1 pattern piece i mn mx)
  from "1.prems" have c: "i < length pattern \<and> is_variant (pattern ! i)"
    by (subst (asm) collapse.simps) (auto split: if_splits)
  show ?case
  proof (cases "resolve piece (variant_expression_match (pattern ! i))")
    case (Inl e')
    with c "1.prems" have e: "e' = e"
      by (subst (asm) collapse.simps) simp
    show ?thesis
    proof (cases "variant_expression_match (pattern ! i)")
      case None
      with Inl e show ?thesis
        by (auto simp: resolve_def split: option.splits)
    next
      case (Some g)
      with Inl e have "get_variant_lengths g = Inl e"
        by (simp add: resolve_def)
      from get_variant_lengths_error [OF Some this] c show ?thesis
        by auto
    qed
  next
    case (Inr new_lengths)
    obtain a b where s: "sum_variant_lengths [(mn, mx), new_lengths] = Some (a, b)"
      by (cases "sum_variant_lengths_loop (mn, mx) [new_lengths]")
         (simp add: sum_variant_lengths_def)
    from c Inr s "1.prems" have "collapse pattern piece (i + 1) a b = Inl e"
      by (subst (asm) collapse.simps) simp
    from "1.IH" [OF c Inr s refl this] show ?thesis .
  qed
qed

lemma loop_body_error:
  assumes "piece_index s < length pattern" and "loop_body target pattern s = Inl e"
  shows "(e = ValueError \<and> (\<exists>p\<in>set pattern. invalid_range p))
         \<or> (\<exists>k\<in>set pattern. e = KeyError k \<and> variant_expression_match k \<noteq> None)"
proof -
  let ?piece = "pattern ! piece_index s"
  have m: "?piece \<in> set pattern"
    using assms(1) by simp
  from assms(2) have v: "variant_rewrite_rules ?piece \<noteq> None \<or> variant_expression_match ?piece \<noteq> None"
    and q: "variant_sequence pattern (piece_index s) = Inl e"
    by (auto simp: loop_body_def Let_def split: if_splits sum.splits)
  show ?thesis
  proof (cases "resolve ?piece (variant_expression_match ?piece)")
    case (Inl e')
    with q have e: "e' = e"
      by (simp add: variant_sequence_def)
    show ?thesis
    proof (cases "variant_expression_match ?piece")
      case None
      with v Inl show ?thesis
        by (auto simp: resolve_def)
    next
      case (Some g)
      with Inl e have "get_variant_lengths g = Inl e"
        by (simp add: resolve_def)
      from get_variant_lengths_error [OF Some this] m show ?thesis
        by auto
    qed
  next
    case (Inr l)
    with q have "collapse pattern ?piece (piece_index s + 1) (fst l) (snd l) = Inl e"
      by (simp add: variant_sequence_def split: prod.splits)
    from collapse_error [OF this] v m show ?thesis
      by auto
  qed
qed

lemma main_loop_error:
  "fst (main_loop target pattern s n) = Inl e \<Longrightarrow>
   \<exists>s'. piece_index s' < length pattern \<and> loop_body target pattern s' = Inl e"
proof (induction target pattern s n rule: main_loop.induct)
  case (1 target pattern s n)
  from "1.prems" have c: "loop_cond target pattern s"
    by (subst (asm) main_loop.simps) (auto split: if_splits)
  show ?case
  proof (cases "loop_body target pattern s")
    case (Inl e')
    with c "1.prems" have "e' = e"
      by (simp add: main_loop_raise)
    with Inl c show ?thesis
      by (auto simp: loop_cond_def)
  next
    case (Inr s')
    with c "1.prems" have "fst (main_loop target pattern s' (n + 1)) = Inl e"
      by (simp add: main_loop_step)
    from "1.IH" [OF c Inr this] show ?thesis .
  qed
qed

lemma match_errors:
  assumes "match target pattern = Inl e"
  shows "(e = ValueError \<and> (\<exists>p\<in>set pattern. invalid_range p))
         \<or> (\<exists>k\<in>set pattern. e = KeyError k \<and> variant_expression_match k \<noteq> None)"
proof -
  from assms have "fst (main_loop target pattern initial_state 0) = Inl e"
    by (simp add: match_def split: sum.splits)
  from main_loop_error [OF this] obtain s' where
    "piece_index s' < length pattern" and "loop_body target pattern s' = Inl e"
    by blast
  then show ?thesis
    by (rule loop_body_error)
qed

subsection \<open>Reaching a malformed range\<close>

lemma match_invalid_range_after_literals:
  assumes "invalid_range r" and "\<forall>p\<in>set lits. \<not> is_variant p" and "ts \<noteq> []"
  shows "match (lits @ ts) (lits @ r # rest) = Inl ValueError"
  using main_loop_literal_prefix [OF assms(1,3,2), of "[]" rest 0]
  by (simp add: match_def initial_state_def)

lemma state_after_main_loop:
  "state_after target pattern n = Some s \<Longrightarrow>
   main_loop target pattern initial_state 0 = main_loop target pattern s n"
proof (induction n arbitrary: s)
  case 0
  then show ?case by simp
next
  case (Suc n)
  from Suc.prems obtain s0 where
    a: "state_after target pattern n = Some s0" and
    c: "loop_cond target pattern s0" and
    b: "loop_body target pattern s0 = Inr s"
    by (auto split: option.splits if_splits sum.splits)
  from Suc.IH [OF a] main_loop_step [OF c b, of n] show ?case
    by simp
qed

lemma state_after_raise:
  assumes "state_after target pattern n = Some s" and "loop_cond target pattern s"
    and "loop_body target pattern s = Inl e"
  shows "match target pattern = Inl e"
  using state_after_main_loop [OF assms(1)] main_loop_raise [OF assms(2,3), of n]
  by (simp add: match_def)

lemma invalid_range_is_variant: "invalid_range p \<Longrightarrow> is_variant p"
  using invalid_range_variant [of p] by (simp add: is_variant_def)

lemma resolve_cases:
  assumes "variant_rewrite_rules key \<noteq> None \<or> mo \<noteq> None"
  shows "resolve key mo = Inl ValueError \<or> (\<exists>l. resolve key mo = Inr l)"
proof (cases mo)
  case None
  with assms show ?thesis
    by (auto simp: resolve_def)
next
  case (Some g)
  then show ?thesis
    by (cases "get_variant_lengths g")
       (auto simp: resolve_def get_variant_lengths_def Let_def split: if_splits)
qed

lemma collapse_reaches_invalid_range:
  assumes "invalid_range r"
  shows "\<forall>p\<in>set ps. is_variant p \<Longrightarrow>
         variant_rewrite_rules piece \<noteq> None \<or> (\<forall>p\<in>set ps. variant_expression_match p \<noteq> None) \<Longrightarrow>
         collapse (pre @ ps @ r # rest) piece (length pre) mn mx = Inl ValueError"
proof (induction ps arbitrary: pre mn mx)
  case Nil
  have "resolve piece (variant_expression_match r) = Inl ValueError"
    using assms invalid_range_resolve [OF assms]
    by (auto simp: resolve_def invalid_range_def split: option.splits)
  then show ?case
    using invalid_range_is_variant [OF assms]
    by (subst collapse.simps) simp
next
  case (Cons q qs)
  let ?P = "pre @ (q # qs) @ r # rest"
  have v: "length pre < length ?P \<and> is_variant (?P ! length pre)"
    using Cons.prems(1) by simp
  have "variant_rewrite_rules piece \<noteq> None \<or> variant_expression_match q \<noteq> None"
    using Cons.prems(2) by auto
  from resolve_cases [OF this] show ?case
  proof
    assume "resolve piece (variant_expression_match q) = Inl ValueError"
    with v show ?thesis
      by (subst collapse.simps) simp
  next
    assume "\<exists>l. resolve piece (variant_expression_match q) = Inr l"
    then obtain l where l: "resolve piece (variant_expression_match q) = Inr l" ..
    obtain a b where s: "sum_variant_lengths [(mn, mx), l] = Some (a, b)"
      by (cases "sum_variant_lengths_loop (mn, mx) [l]") (simp add: sum_variant_lengths_def)
    have "collapse ((pre @ [q]) @ qs @ r # rest) piece (length (pre @ [q])) a b = Inl ValueError"
      using Cons.prems by (intro Cons.IH) auto
    with v l s show ?thesis
      by (subst collapse.simps) simp
  qed
qed

lemma loop_body_reaches_invalid_range:
  assumes "invalid_range r" and "piece_index s = length pre"
    and "\<forall>p\<in>set run. is_variant p"
    and "run = [] \<or> variant_rewrite_rules (hd run) \<noteq> None
         \<or> (\<forall>p\<in>set (tl run). variant_expression_match p \<noteq> None)"
  shows "loop_body target (pre @ run @ r # rest) s = Inl ValueError"
proof (cases run)
  case Nil
  show ?thesis
    unfolding Nil by (rule loop_body_invalid_range) (simp add: assms(1,2))
next
  case (Cons p0 ps)
  let ?P = "pre @ p0 # ps @ r # rest"
  have p0: "?P ! piece_index s = p0"
    by (simp add: assms(2))
  have v: "variant_rewrite_rules p0 \<noteq> None \<or> variant_expression_match p0 \<noteq> None"
    using assms(3) Cons by (simp add: is_variant_def)
  have k: "variant_rewrite_rules p0 \<noteq> None \<or> (\<forall>p\<in>set ps. variant_expression_match p \<noteq> None)"
    using assms(4) Cons by simp
  have ps: "\<forall>p\<in>set ps. is_variant p"
    using assms(3) Cons by simp
  have c: "collapse ?P p0 (piece_index s + 1) mn mx = Inl ValueError" for mn mx
    using collapse_reaches_invalid_range [OF assms(1) ps k, of "pre @ [p0]" rest mn mx]
    by (simp add: assms(2))
  have "variant_sequence ?P (piece_index s) = Inl ValueError"
    using resolve_cases [OF v] c
    by (auto simp: variant_sequence_def p0 Let_def)
  then show ?thesis
    unfolding Cons using v by (simp add: loop_body_def p0 Let_def)
qed

lemma match_invalid_range_after_star:
  assumes "invalid_range r" and "target \<noteq> []"
  shows "match target (''*'' # r # rest) = Inl ValueError"
proof -
  have a: "state_after target ([] @ [''*''] @ r # rest) 0 = Some initial_state"
    by simp
  have c: "loop_cond target ([] @ [''*''] @ r # rest) initial_state"
    using assms(2) by (simp add: loop_cond_def initial_state_def)
  have v: "is_variant ''*''"
    by (simp add: is_variant_def variant_rewrite_rules_def)
  have "match target ([] @ [''*''] @ r # rest) = Inl ValueError"
    by (rule state_after_raise [OF a c], rule loop_body_reaches_invalid_range [OF assms(1)])
       (simp_all add: initial_state_def v variant_rewrite_rules_def)
  then show ?thesis
    by simp
qed

subsection \<open>A variant sequence with maximum \<^verbatim>\<open>None\<close> before an invariant\<close>

text \<open>
  Lines 108-121, for the lengths \<open>(mn, None)\<close> that lines 74-97 computed: the target index
  advances by \<open>mn\<close> to \<open>start\<close>; if the invariant \<open>lit\<close> occurs from \<open>start\<close> on, the new
  target index is one past its first occurrence and the piece index one past \<open>lit\<close>;
  otherwise \<open>match_possible\<close> is cleared and the loop ends with the piece index at \<open>lit\<close>.
\<close>

lemma unbounded_sequence_before_invariant:
  assumes "loop_cond target pattern s"
    and "is_variant (pattern ! piece_index s)"
    and "variant_sequence pattern (piece_index s) = Inr (pi, mn, None)"
    and "pi \<noteq> length pattern"
  shows "let lit = pattern ! pi;
             start = target_index s + mn;
             rest = drop start target;
             found = s\<lparr>target_index := start + length (takeWhile (\<lambda>t. t \<noteq> lit) rest) + 1,
                       piece_index := pi + 1, match_possible := True\<rparr>;
             failed = s\<lparr>target_index := max start (length target),
                        piece_index := pi, match_possible := False\<rparr>
         in pi < length pattern \<and> \<not> is_variant lit
            \<and> loop_body target pattern s = Inr (if lit \<in> set rest then found else failed)
            \<and> main_loop target pattern s n =
                (if lit \<in> set rest then main_loop target pattern found (n + 1)
                 else (Inr failed, n + 1))"
proof -
  have i: "piece_index s < length pattern"
    using assms(1) by (simp add: loop_cond_def)
  from variant_sequence_piece_index [OF assms(3) i] assms(4)
  have pi: "pi < length pattern" and lit: "\<not> is_variant (pattern ! pi)"
    by simp_all
  let ?lit = "pattern ! pi" and ?start = "target_index s + mn"
  let ?rest = "drop ?start target"
  let ?found = "s\<lparr>target_index := ?start + length (takeWhile (\<lambda>t. t \<noteq> ?lit) ?rest) + 1,
                   piece_index := pi + 1, match_possible := True\<rparr>"
  let ?failed = "s\<lparr>target_index := max ?start (length target),
                    piece_index := pi, match_possible := False\<rparr>"
  have b: "loop_body target pattern s = Inr (if ?lit \<in> set ?rest then ?found else ?failed)"
    using assms(2,3,4)
    by (simp add: loop_body_def is_variant_def before_invariant_def scan_eq Let_def)
  have f: "\<not> loop_cond target pattern ?failed"
    by (simp add: loop_cond_def)
  have m: "main_loop target pattern s n =
             (if ?lit \<in> set ?rest then main_loop target pattern ?found (n + 1)
              else (Inr ?failed, n + 1))"
    unfolding main_loop_step [OF assms(1) b] using main_loop_stop [OF f] by simp
  show ?thesis
    unfolding Let_def using pi lit b m by blast
qed

lemma unbounded_sequence_before_invariant_example:
  "loop_cond [''Character'', ''Scope'', ''Action''] [''*'', ''Action''] initial_state
   \<and> is_variant ''*''
   \<and> variant_sequence [''*'', ''Action''] 0 = Inr (1, 0, None)
   \<and> loop_body [''Character'', ''Scope'', ''Action''] [''*'', ''Action''] initial_state
       = Inr \<lparr>target_index = 3, piece_index = 2, match_possible = True\<rparr>
   \<and> loop_body [''Character'', ''Scope''] [''*'', ''Action''] initial_state
       = Inr \<lparr>target_index = 2, piece_index = 1, match_possible = False\<rparr>"
proof -
  let ?P = "[''*'', ''Action'']"
  let ?T = "[''Character'', ''Scope'', ''Action'']" and ?U = "[''Character'', ''Scope'']"
  have c: "loop_cond ?T ?P initial_state" and c': "loop_cond ?U ?P initial_state"
    by (simp_all add: loop_cond_def initial_state_def)
  have v: "is_variant (?P ! piece_index initial_state)"
    by (simp add: initial_state_def is_variant_def variant_rewrite_rules_def)
  have q: "variant_sequence ?P (piece_index initial_state) = Inr (1, 0, None)"
    unfolding initial_state_def by code_simp
  have e: "(1::nat) \<noteq> length ?P"
    by simp
  show ?thesis
    using c v q
      unbounded_sequence_before_invariant [OF c v q e, of 0]
      unbounded_sequence_before_invariant [OF c' v q e, of 0]
    by (simp add: Let_def initial_state_def)
qed

lemma variant_sequence_single:
  assumes "resolve (pattern ! i) (variant_expression_match (pattern ! i)) = Inr (mn, mx)"
    and "Suc i < length pattern" and "\<not> is_variant (pattern ! Suc i)"
  shows "variant_sequence pattern i = Inr (Suc i, mn, mx)"
  using assms by (simp add: variant_sequence_def) (subst collapse.simps, simp)

section \<open>Specified properties\<close>

subsection \<open>Single-piece patterns and the empty target\<close>

text \<open>
  C2. The claim: for every target, the empty sequence included, \<open>match target [''*'']\<close> is
  \<open>True\<close>. The docstring of \<^verbatim>\<open>match\<close> says that \<^verbatim>\<open>*\<close> matches zero or more occurrences.
  On the empty target the loop of line 69 is not entered, the piece is left unconsumed and
  line 130 yields \<open>False\<close>. On every nonempty target the result is \<open>True\<close>
  (\<open>match_star_nonempty\<close>).
\<close>

theorem C2_star_rejects_empty_target: "match [] [''*''] = Inr False"
  by code_simp

text \<open>
  C6. The claim: \<open>match target [''{m,}'']\<close> is \<open>True\<close> exactly when \<open>m \<le> length target\<close>.
  At \<open>m = 0\<close> and the empty target the claim asks for \<open>True\<close>; the loop is not entered
  and the result is \<open>False\<close>. On every nonempty target the equivalence holds
  (\<open>match_open_range_nonempty\<close>).
\<close>

theorem C6_open_range_rejects_empty_target: "match [] [''{0,}''] = Inr False"
  by code_simp

text \<open>
  C7. The claim: \<open>match target [''{m,m}'']\<close> is \<open>True\<close> exactly when \<open>length target = m\<close>.
  At \<open>m = 0\<close> and the empty target the claim asks for \<open>True\<close>; the loop is not entered
  and the result is \<open>False\<close>. On every nonempty target the equivalence holds
  (\<open>match_exact_range_nonempty\<close>).
\<close>

theorem C7_exact_range_rejects_empty_target: "match [] [''{0,0}''] = Inr False"
  by code_simp

text \<open>
  C9. On the empty target, \<open>match\<close> returns \<open>True\<close> exactly when the pattern is empty.
  The main loop runs zero iterations and returns the initial state: no piece is read, no
  specifier is resolved, no range is validated, whatever the pattern holds.
\<close>

theorem C9_empty_target:
  "match [] pattern = Inr (pattern = [])
   \<and> main_loop [] pattern initial_state 0 = (Inr initial_state, 0)"
proof -
  have n: "\<not> loop_cond [] pattern initial_state"
    by (simp add: loop_cond_def)
  have m: "main_loop [] pattern initial_state 0 = (Inr initial_state, 0)"
    by (rule main_loop_stop [OF n])
  show ?thesis
    by (simp add: match_def m) (simp add: initial_state_def)
qed

text \<open>
  C10. For a nonempty target and \<open>m \<le> n\<close>, the single piece \<^verbatim>\<open>"{m,n}"\<close> matches exactly
  the targets of length \<open>n\<close>: line 101 asks for \<open>n \<le> remaining\<close> and line 105 advances by
  \<open>n\<close>, so a length strictly between \<open>m\<close> and \<open>n\<close> does not match.
\<close>

theorem C10_bounded_range_matches_only_maximum:
  assumes "target \<noteq> []" and "m \<le> n"
  shows "match target [''{'' @ str_nat m @ '','' @ str_nat n @ ''}''] = Inr (length target = n)"
proof -
  have dm: "\<forall>c\<in>set (str_nat m). is_digit c" and dn: "\<forall>c\<in>set (str_nat n). is_digit c"
    by (simp_all add: str_nat_digits)
  have v: "is_variant (''{'' @ str_nat m @ '','' @ str_nat n @ ''}'')"
    by (rule is_variant_range [OF dm dn])
  have r: "resolve (''{'' @ str_nat m @ '','' @ str_nat n @ ''}'')
             (variant_expression_match (''{'' @ str_nat m @ '','' @ str_nat n @ ''}''))
           = Inr (m, Some n)"
    by (simp only: resolve_range [OF dm dn] get_variant_lengths_closed [OF assms(2)])
  show ?thesis
    using match_single_variant [OF assms(1) v r] assms(2) by auto
qed

theorem C10_bounded_range_witness:
  "[''a'', ''b'', ''c''] \<noteq> [] \<and> (2::nat) \<le> 4
   \<and> match [''a'', ''b'', ''c''] [''{2,4}''] = Inr False
   \<and> match [''a'', ''b'', ''c'', ''d''] [''{2,4}''] = Inr True"
proof -
  have s2: "str_nat 2 = ''2''" and s4: "str_nat 4 = ''4''"
    by code_simp+
  have "match [''a'', ''b'', ''c''] [''{'' @ str_nat 2 @ '','' @ str_nat 4 @ ''}'']
          = Inr (length [''a'', ''b'', ''c''] = 4)"
    by (rule C10_bounded_range_matches_only_maximum) simp_all
  moreover
  have "match [''a'', ''b'', ''c'', ''d''] [''{'' @ str_nat 2 @ '','' @ str_nat 4 @ ''}'']
          = Inr (length [''a'', ''b'', ''c'', ''d''] = 4)"
    by (rule C10_bounded_range_matches_only_maximum) simp_all
  ultimately show ?thesis
    by (simp add: s2 s4)
qed

subsection \<open>Variant sequences\<close>

text \<open>
  C1. The claim: the lengths of a variant sequence are the sum of its constituents, and
  the maximum is unbounded as soon as one constituent is unbounded. The docstring of
  \<^verbatim>\<open>match\<close> says that \<^verbatim>\<open>*\<close> matches zero or more occurrences. For \<^verbatim>\<open>*\<close> followed by
  \<^verbatim>\<open>{0,2}\<close>, line 38 replaces the unbounded maximum by \<open>2\<close>: the sequence has the lengths
  \<open>(0, 2)\<close> and a target of three tokens is rejected.
\<close>

theorem C1_unbounded_run_becomes_bounded:
  "sum_variant_lengths [(0, None), (0, Some 2)] = Some (0, Some 2)
   \<and> variant_sequence [''*'', ''{0,2}''] 0 = Inr (2, 0, Some 2)
   \<and> match [''a'', ''b'', ''c''] [''*'', ''{0,2}''] = Inr False"
  by code_simp

text \<open>
  C4. The claim: on a well-formed pattern \<open>match\<close> yields a boolean and raises nothing,
  also when a range piece is followed by a predefined symbol. Line 87 looks the first
  piece of the sequence up in \<^verbatim>\<open>variant_rewrite_rules\<close>, where line 75 looks up the piece it
  resolves: with a range piece first, the lookup raises \<^verbatim>\<open>KeyError\<close>.
\<close>

theorem C4_range_then_symbol_raises_KeyError:
  "match [''a''] [''{1,2}'', ''*''] = Inl (KeyError ''{1,2}'')"
  by code_simp

subsection \<open>Malformed ranges\<close>

text \<open>
  C3. The claim: for every target, a pattern that contains a range piece with maximum
  below minimum makes \<open>match\<close> raise. The range is validated where the scan resolves it
  (lines 77 and 89), not before: after the mismatch of an earlier literal the scan stops
  at line 128, the range is never resolved and \<open>match\<close> returns \<open>False\<close>.
\<close>

theorem C3_unreached_invalid_range_counterexample:
  "invalid_range ''{3,1}'' \<and> match [''x''] [''y'', ''{3,1}''] = Inr False"
  by code_simp

text \<open>
  C3, amended. \<open>match\<close> raises the error whenever its scan evaluates the malformed range
  \<open>r\<close>. The main loop has completed some iterations and starts another one at the piece
  after \<open>pre\<close>; the pieces \<open>run\<close> from there to \<open>r\<close> are variants, so that \<open>r\<close> is read
  at line 77 (\<open>run\<close> empty) or absorbed into the sequence at line 89; and the pieces of
  \<open>run\<close> raise nothing themselves: \<open>run\<close> starts with a predefined symbol, or the pieces
  after its first are range forms. Then the error reaches the caller.
\<close>

theorem C3_invalid_range_raises_when_evaluated:
  assumes "invalid_range r"
    and "state_after target (pre @ run @ r # rest) n = Some s"
    and "loop_cond target (pre @ run @ r # rest) s"
    and "piece_index s = length pre"
    and "\<forall>p\<in>set run. is_variant p"
    and "run = [] \<or> variant_rewrite_rules (hd run) \<noteq> None
         \<or> (\<forall>p\<in>set (tl run). variant_expression_match p \<noteq> None)"
  shows "match target (pre @ run @ r # rest) = Inl ValueError"
  using state_after_raise [OF assms(2,3) loop_body_reaches_invalid_range [OF assms(1,4,5,6)]] .

theorem C3_invalid_range_witness:
  "invalid_range ''{3,1}''
   \<and> state_after [''a'', ''b''] [''a'', ''*'', ''{3,1}'', ''c''] 1
       = Some \<lparr>target_index = 1, piece_index = 1, match_possible = True\<rparr>
   \<and> loop_cond [''a'', ''b''] [''a'', ''*'', ''{3,1}'', ''c'']
       \<lparr>target_index = 1, piece_index = 1, match_possible = True\<rparr>
   \<and> is_variant ''*''
   \<and> match [''a'', ''b''] [''a'', ''*'', ''{3,1}'', ''c''] = Inl ValueError"
proof -
  let ?s = "\<lparr>target_index = 1, piece_index = 1, match_possible = True\<rparr>"
  have i: "invalid_range ''{3,1}''"
    by code_simp
  have a: "state_after [''a'', ''b''] ([''a''] @ [''*''] @ ''{3,1}'' # [''c'']) 1 = Some ?s"
    by code_simp
  have c: "loop_cond [''a'', ''b''] ([''a''] @ [''*''] @ ''{3,1}'' # [''c'']) ?s"
    by (simp add: loop_cond_def)
  have p: "piece_index ?s = length [''a'']"
    by simp
  have v: "is_variant ''*''"
    by code_simp
  then have r: "\<forall>p\<in>set [''*'']. is_variant p"
    by simp
  have k: "[''*''] = [] \<or> variant_rewrite_rules (hd [''*'']) \<noteq> None
           \<or> (\<forall>p\<in>set (tl [''*'']). variant_expression_match p \<noteq> None)"
    by simp
  show ?thesis
    using i a c v C3_invalid_range_raises_when_evaluated [OF i a c p r k] by simp
qed

subsection \<open>An unbounded variant sequence before an invariant\<close>

text \<open>
  C5. The claim: when a run with unbounded maximum is followed by a literal, the matcher
  consumes the minimum of the run, then scans to the first token equal to the literal,
  consumes it and skips the literal piece. The bounds the matcher uses are not those of
  the run. In \<^verbatim>\<open>+\<close>, \<^verbatim>\<open>?\<close>, \<^verbatim>\<open>x\<close> the run has minimum 1 and no maximum; line 87 resolves
  \<^verbatim>\<open>?\<close> as \<^verbatim>\<open>+\<close>, the matcher consumes 2 tokens before it scans, and the target
  \<^verbatim>\<open>a\<close>, \<^verbatim>\<open>x\<close> is rejected. In \<^verbatim>\<open>*\<close>, \<^verbatim>\<open>{0,2}\<close>, \<^verbatim>\<open>x\<close> the run has no maximum; line 38
  gives it the maximum 2, the matcher advances by 2 without scanning (line 123), and the
  target \<^verbatim>\<open>x\<close> is rejected. For the lengths the matcher computed, the iteration does what
  the claim describes (\<open>unbounded_sequence_before_invariant\<close>).
\<close>

theorem C5_run_bounds_miscomputed:
  "variant_sequence [''+'', ''?'', ''x''] 0 = Inr (2, 2, None)
   \<and> match [''a'', ''x''] [''+'', ''?'', ''x''] = Inr False
   \<and> variant_sequence [''*'', ''{0,2}'', ''x''] 0 = Inr (2, 0, Some 2)
   \<and> match [''x''] [''*'', ''{0,2}'', ''x''] = Inr False"
  by code_simp

subsection \<open>Termination\<close>

text \<open>
  C8. \<open>collapse\<close>, \<open>scan\<close> and \<open>main_loop\<close> are total: each loop of the source has a
  decreasing measure. The main loop starts at most \<open>length target + length pattern\<close>
  iterations, and every iteration that returns advances a cursor or clears
  \<open>match_possible\<close>.
\<close>

theorem C8_main_loop_bounded:
  "snd (main_loop target pattern initial_state 0) \<le> length target + length pattern
   \<and> (\<forall>s s'. loop_cond target pattern s \<and> loop_body target pattern s = Inr s' \<longrightarrow>
         target_index s < target_index s' \<or> piece_index s < piece_index s'
         \<or> \<not> match_possible s')"
proof -
  have "snd (main_loop target pattern initial_state 0) \<le> 0 + (length pattern - piece_index initial_state)"
    by (rule main_loop_iterations)
  then have "snd (main_loop target pattern initial_state 0) \<le> length target + length pattern"
    by simp
  then show ?thesis
    using loop_body_advances by blast
qed

theorem C8_main_loop_witness:
  "snd (main_loop [''Character'', ''Action''] [''?'', ''Action''] initial_state 0) \<le> 4
   \<and> loop_cond [''Character'', ''Action''] [''?'', ''Action''] initial_state
   \<and> loop_body [''Character'', ''Action''] [''?'', ''Action''] initial_state
       = Inr \<lparr>target_index = 1, piece_index = 1, match_possible = True\<rparr>
   \<and> target_index initial_state < 1"
proof -
  let ?T = "[''Character'', ''Action'']" and ?P = "[''?'', ''Action'']"
  have c: "loop_cond ?T ?P initial_state"
    by (simp add: loop_cond_def initial_state_def)
  have b: "loop_body ?T ?P initial_state
             = Inr \<lparr>target_index = 1, piece_index = 1, match_possible = True\<rparr>"
    by code_simp
  show ?thesis
    using c b C8_main_loop_bounded [of ?T ?P] by (simp add: initial_state_def)
qed

end
